theory Spec2Isabelle
  imports Main "HOL-Library.Sublist" "HOL-Library.AList"
begin

section \<open>Characters and strings\<close>

text \<open>
  A Python \<open>str\<close> is a sequence of code points. The model takes narrations over the
  code points U+0000 .. U+00FF: a \<^typ>\<open>char\<close> is the code point \<open>of_char c\<close>, and the
  three character tables below are those of Python 3 on that range
  (\<open>str.isspace\<close>, the regular expression class \<open>\w\<close> on \<open>str\<close> patterns, and
  \<open>str.lower\<close>).
\<close>

definition is_AZ :: "char \<Rightarrow> bool" where
  \<comment> \<open>the character class \<open>[A-Z]\<close>\<close>
  "is_AZ c = (65 \<le> (of_char c :: nat) \<and> (of_char c :: nat) \<le> 90)"

definition py_isspace :: "char \<Rightarrow> bool" where
  \<comment> \<open>the character class \<open>\s\<close>\<close>
  "py_isspace c = (let n = (of_char c :: nat) in
     (9 \<le> n \<and> n \<le> 13) \<or> (28 \<le> n \<and> n \<le> 32) \<or> n = 133 \<or> n = 160)"

definition py_isword :: "char \<Rightarrow> bool" where
  \<comment> \<open>the character class \<open>\w\<close>: alphanumeric code points and the underscore\<close>
  "py_isword c = (let n = (of_char c :: nat) in
     (48 \<le> n \<and> n \<le> 57) \<or> (65 \<le> n \<and> n \<le> 90) \<or> n = 95 \<or> (97 \<le> n \<and> n \<le> 122) \<or>
     n = 170 \<or> n = 178 \<or> n = 179 \<or> n = 181 \<or> n = 185 \<or> n = 186 \<or>
     (188 \<le> n \<and> n \<le> 190) \<or> (192 \<le> n \<and> n \<le> 214) \<or> (216 \<le> n \<and> n \<le> 246) \<or>
     (248 \<le> n \<and> n \<le> 255))"

definition py_lower_chr :: "char \<Rightarrow> char" where
  "py_lower_chr c = (let n = (of_char c :: nat) in
     if (65 \<le> n \<and> n \<le> 90) \<or> (192 \<le> n \<and> n \<le> 222 \<and> n \<noteq> 215) then char_of (n + 32) else c)"

definition py_lower :: "string \<Rightarrow> string" where
  \<comment> \<open>\<open>s.lower()\<close>\<close>
  "py_lower s = map py_lower_chr s"

definition slice :: "string \<Rightarrow> nat \<Rightarrow> nat \<Rightarrow> string" where
  \<comment> \<open>\<open>s[i:j]\<close> for \<open>0 \<le> i\<close>, \<open>0 \<le> j\<close>\<close>
  "slice s i j = take (j - i) (drop i s)"

definition py_in :: "string \<Rightarrow> string \<Rightarrow> bool" where
  \<comment> \<open>\<open>sub in s\<close> on strings\<close>
  "py_in sub s = sublist sub s"

section \<open>Regular expressions as the \<open>re\<close> module matches them\<close>

text \<open>
  The fragment of the pattern language that the source uses: literal characters,
  character classes, the assertion \<open>\b\<close>, concatenation, alternation \<open>|\<close> and the
  greedy repetition \<open>+\<close>. Groups are all non-capturing.
\<close>

datatype rx =
    Eps
  | Lit char
  | In "char \<Rightarrow> bool"
  | Bnd
  | Cat rx rx
  | Or rx rx
  | Plus rx

definition word_boundary :: "string \<Rightarrow> nat \<Rightarrow> bool" where
  \<comment> \<open>\<open>\b\<close> at position \<open>i\<close>: exactly one of the two neighbours is a word character;
      the outside of the string counts as a non-word character\<close>
  "word_boundary s i =
     ((0 < i \<and> i \<le> length s \<and> py_isword (s ! (i - 1))) \<noteq> (i < length s \<and> py_isword (s ! i)))"

text \<open>
  \<open>ends r s i\<close> lists the positions at which a match of \<open>r\<close> that starts at \<open>i\<close> can
  end, in the order in which the backtracking matcher tries them: the left branch of
  an alternation first, and for \<open>+\<close> one more iteration before stopping. An iteration
  of \<open>+\<close> that consumes nothing is not repeated.
\<close>

function ends :: "rx \<Rightarrow> string \<Rightarrow> nat \<Rightarrow> nat list" where
  "ends Eps s i = [i]"
| "ends (Lit c) s i = (if i < length s \<and> s ! i = c then [Suc i] else [])"
| "ends (In P) s i = (if i < length s \<and> P (s ! i) then [Suc i] else [])"
| "ends Bnd s i = (if word_boundary s i then [i] else [])"
| "ends (Cat a b) s i = concat (map (\<lambda>j. ends b s j) (ends a s i))"
| "ends (Or a b) s i = ends a s i @ ends b s i"
| "ends (Plus a) s i =
     concat (map (\<lambda>j. (if i < j \<and> j \<le> length s then ends (Plus a) s j else []) @ [j])
                 (ends a s i))"
  by pat_completeness auto
termination
  by (relation "measures [\<lambda>(r, s, i). size r, \<lambda>(r, s, i). length s - i]") auto

text \<open>
  \<open>re.findall(r, s)\<close> for a pattern without capturing groups: the matched substrings,
  scanning from the left, each search resuming where the previous match ended (one
  position further after an empty match; the two patterns of the source never match
  the empty string).
\<close>

function findall_from :: "rx \<Rightarrow> string \<Rightarrow> nat \<Rightarrow> string list" where
  "findall_from r s i =
     (if length s < i then []
      else (case ends r s i of
              [] \<Rightarrow> findall_from r s (Suc i)
            | j # _ \<Rightarrow> slice s i j # findall_from r s (if i < j then j else Suc i)))"
  by pat_completeness auto
termination
  by (relation "measure (\<lambda>(r, s, i). Suc (length s) - i)") auto

definition findall :: "rx \<Rightarrow> string \<Rightarrow> string list" where
  "findall r s = findall_from r s 0"

fun lit :: "string \<Rightarrow> rx" where
  "lit [] = Eps"
| "lit (c # cs) = Cat (Lit c) (lit cs)"

section \<open>Cell values and exceptions\<close>

datatype cell = CNull | CNum int | CStr string

datatype py_exn =
    IndexError
  | KeyError string
  | NameError string
  | UnboundLocalError string
  | TypeError
  | ValueError
  | LoaderError string

definition subscript0 :: "'a list \<Rightarrow> py_exn + 'a" where
  \<comment> \<open>\<open>xs[0]\<close>\<close>
  "subscript0 xs = (case xs of [] \<Rightarrow> Inl IndexError | x # _ \<Rightarrow> Inr x)"

function digits_of :: "nat \<Rightarrow> string" where
  "digits_of n = (if n < 10 then [char_of (48 + n)] else digits_of (n div 10) @ [char_of (48 + n mod 10)])"
  by pat_completeness auto
termination
  by (relation "measure (\<lambda>n. n)") auto

definition str_int :: "int \<Rightarrow> string" where
  \<comment> \<open>\<open>str(n)\<close> for an integer\<close>
  "str_int n = (if n < 0 then CHR ''-'' # digits_of (nat (- n)) else digits_of (nat n))"

section \<open>The classification functions\<close>

fun handle_nan :: "cell \<Rightarrow> string" where
  "handle_nan CNull = []"
| "handle_nan (CNum n) = str_int n"
| "handle_nan (CStr s) = s"

definition name_rx :: rx where
  \<comment> \<open>\<open>\b(?:[A-Z]+\s)+[A-Z]+\b\<close>\<close>
  "name_rx = Cat Bnd (Cat (Plus (Cat (Plus (In is_AZ)) (In py_isspace))) (Cat (Plus (In is_AZ)) Bnd))"

definition method_rx :: rx where
  \<comment> \<open>\<open>(?:UPI|IMPS|NEFT|RTGS)\b\<close>\<close>
  "method_rx = Cat (Or (lit ''UPI'') (Or (lit ''IMPS'') (Or (lit ''NEFT'') (lit ''RTGS'')))) Bnd"

definition extract_sender_receiver_name :: "cell \<Rightarrow> py_exn + string option" where
  "extract_sender_receiver_name narration =
     (let names = findall name_rx (handle_nan narration)
      in if names \<noteq> [] then map_sum (\<lambda>e. e) Some (subscript0 names) else Inr None)"

definition extract_payment_method :: "cell \<Rightarrow> py_exn + string option" where
  "extract_payment_method narration =
     (let methods = findall method_rx (handle_nan narration)
      in if methods \<noteq> [] then map_sum (\<lambda>e. e) Some (subscript0 methods) else Inr None)"

definition extract_payment_platform :: "cell \<Rightarrow> string option" where
  "extract_payment_platform narration0 =
     (let narration = py_lower (handle_nan narration0)
      in if py_in ''phone pe'' narration \<or> py_in ''@ybl'' narration \<or> py_in ''@axl'' narration
           then Some ''PhonePe''
         else if py_in ''paytm'' narration then Some ''Paytm''
         else if py_in ''bharatpe'' narration then Some ''Bharat Pay''
         else if py_in ''cash wdl'' narration then Some ''ATM''
         else if py_in ''@ok'' narration then Some ''Google Pay''
         else None)"

section \<open>What the specification says about the method and the platform\<close>

definition method_tokens :: "string list" where
  "method_tokens = [''UPI'', ''IMPS'', ''NEFT'', ''RTGS'']"

definition occurs_at :: "string \<Rightarrow> string \<Rightarrow> nat \<Rightarrow> bool" where
  \<comment> \<open>the token \<open>t\<close> is written in \<open>s\<close> from position \<open>i\<close> on\<close>
  "occurs_at t s i = prefix t (drop i s)"

definition whole_word :: "string \<Rightarrow> string \<Rightarrow> nat \<Rightarrow> bool" where
  \<comment> \<open>an occurrence with a word boundary on both sides\<close>
  "whole_word t s i = (word_boundary s i \<and> occurs_at t s i \<and> word_boundary s (i + length t))"

definition before_boundary :: "string \<Rightarrow> string \<Rightarrow> nat \<Rightarrow> bool" where
  \<comment> \<open>an occurrence with a word boundary after it; what precedes it is not looked at\<close>
  "before_boundary t s i = (occurs_at t s i \<and> word_boundary s (i + length t))"

definition leftmost_token :: "(string \<Rightarrow> string \<Rightarrow> nat \<Rightarrow> bool) \<Rightarrow> string \<Rightarrow> string option" where
  \<comment> \<open>the token of the leftmost occurrence, for a given notion of occurrence\<close>
  "leftmost_token occ s =
     (case [t. i \<leftarrow> [0..<Suc (length s)], t \<leftarrow> method_tokens, occ t s i] of
        [] \<Rightarrow> None
      | t # _ \<Rightarrow> Some t)"

definition platform_rules :: "(string list \<times> string) list" where
  \<comment> \<open>the rule table, in priority order: keywords and the value returned\<close>
  "platform_rules =
     [([''phone pe'', ''@ybl'', ''@axl''], ''PhonePe''),
      ([''paytm''], ''Paytm''),
      ([''bharatpe''], ''Bharat Pay''),
      ([''cash wdl''], ''ATM''),
      ([''@ok''], ''Google Pay'')]"

definition contains :: "string \<Rightarrow> string \<Rightarrow> bool" where
  "contains s kw = (\<exists>pre post. s = pre @ kw @ post)"

definition rule_matches :: "string \<Rightarrow> string list \<times> string \<Rightarrow> bool" where
  "rule_matches s rule = list_ex (contains s) (fst rule)"

definition first_rule :: "string \<Rightarrow> string option" where
  "first_rule s = map_option snd (List.find (rule_matches s) platform_rules)"

definition platform_labels :: "string option set" where
  "platform_labels =
     {None, Some ''PhonePe'', Some ''Paytm'', Some ''Bharat Pay'', Some ''ATM'', Some ''Google Pay''}"

section \<open>Data frames\<close>

text \<open>
  A \<open>pandas.DataFrame\<close> as the list of its columns, in order: the label and the
  values, one per row. Labels are cell values, as in a frame built from the first
  row of a sheet. The model covers frames whose labels are pairwise distinct.
  Numbers are modelled as unbounded integers; the \<open>int64\<close> and \<open>float64\<close>
  representations that pandas chooses for a numeric column are outside the model.
\<close>

type_synonym frame = "(cell \<times> cell list) list"

definition has_column :: "frame \<Rightarrow> string \<Rightarrow> bool" where
  \<comment> \<open>\<open>name in df.columns\<close>\<close>
  "has_column df name = (CStr name \<in> set (map fst df))"

definition getitem :: "frame \<Rightarrow> string \<Rightarrow> py_exn + cell list" where
  \<comment> \<open>\<open>df[name]\<close>\<close>
  "getitem df name = (case map_of df (CStr name) of None \<Rightarrow> Inl (KeyError name) | Some col \<Rightarrow> Inr col)"

definition setitem :: "frame \<Rightarrow> string \<Rightarrow> cell list \<Rightarrow> frame" where
  \<comment> \<open>\<open>df[name] = col\<close>: an existing column is replaced in place, a new one is appended\<close>
  "setitem df name col = AList.update (CStr name) col df"

fun is_text :: "cell \<Rightarrow> bool" where
  "is_text (CStr _) = True"
| "is_text _ = False"

fun numbers :: "cell list \<Rightarrow> int list" where
  "numbers [] = []"
| "numbers (CNum n # cs) = n # numbers cs"
| "numbers (_ # cs) = numbers cs"

fun py_add :: "cell \<Rightarrow> cell \<Rightarrow> py_exn + cell" where
  \<comment> \<open>the operator \<open>+\<close> on cell values\<close>
  "py_add (CNum a) (CNum b) = Inr (CNum (a + b))"
| "py_add (CStr a) (CStr b) = Inr (CStr (a @ b))"
| "py_add _ _ = Inl TypeError"

fun add_all :: "cell \<Rightarrow> cell list \<Rightarrow> py_exn + cell" where
  "add_all acc [] = Inr acc"
| "add_all acc (c # cs) = (case py_add acc c of Inl e \<Rightarrow> Inl e | Inr a \<Rightarrow> add_all a cs)"

fun fillna0 :: "cell \<Rightarrow> cell" where
  "fillna0 CNull = CNum 0"
| "fillna0 c = c"

definition series_sum :: "cell list \<Rightarrow> py_exn + cell" where
  \<comment> \<open>\<open>Series.sum()\<close> with its default \<open>skipna=True\<close>: a column without text cells is
      numeric and its missing cells are skipped; a column with a text cell has dtype
      \<open>object\<close>, its missing cells are replaced by 0 and the cells are added with \<open>+\<close>
      from left to right\<close>
  "series_sum col =
     (if list_ex is_text col
      then (case map fillna0 col of [] \<Rightarrow> Inr (CNum 0) | c # cs \<Rightarrow> add_all c cs)
      else Inr (CNum (sum_list (numbers col))))"

fun traverse :: "('a \<Rightarrow> py_exn + 'b) \<Rightarrow> 'a list \<Rightarrow> py_exn + 'b list" where
  "traverse f [] = Inr []"
| "traverse f (x # xs) =
     (case f x of Inl e \<Rightarrow> Inl e
      | Inr y \<Rightarrow> (case traverse f xs of Inl e \<Rightarrow> Inl e | Inr ys \<Rightarrow> Inr (y # ys)))"

fun to_cell :: "string option \<Rightarrow> cell" where
  "to_cell None = CNull"
| "to_cell (Some s) = CStr s"

definition apply_series :: "(cell \<Rightarrow> py_exn + string option) \<Rightarrow> cell list \<Rightarrow> py_exn + cell list" where
  \<comment> \<open>\<open>Series.apply(f)\<close>: \<open>f\<close> on every value in row order; an exception of \<open>f\<close> ends it\<close>
  "apply_series f col = map_sum (\<lambda>e. e) (map to_cell) (traverse f col)"

section \<open>The loaders\<close>

fun extract_text_from_pdf :: "string list \<Rightarrow> string" where
  \<comment> \<open>the argument lists \<open>page.get_text()\<close> for the pages \<open>0 .. len - 1\<close>\<close>
  "extract_text_from_pdf pages = foldl (\<lambda>text page. text @ page) [] pages"

fun extract_text_from_docx :: "string list \<Rightarrow> string" where
  \<comment> \<open>the argument lists \<open>paragraph.text\<close> for \<open>doc.paragraphs\<close>\<close>
  "extract_text_from_docx paragraphs = foldl (\<lambda>text p. text @ p @ [CHR 0x0A]) [] paragraphs"

definition cell_at :: "cell list \<Rightarrow> nat \<Rightarrow> cell" where
  \<comment> \<open>a row shorter than the widest one is padded with missing values\<close>
  "cell_at row k = (if k < length row then row ! k else CNull)"

definition process_excel_file :: "py_exn + cell list list \<Rightarrow> py_exn + frame" where
  \<comment> \<open>the argument is what \<open>load_workbook(file).active.iter_rows(values_only=True)\<close>
      yields, or the exception of opening the workbook; \<open>data[0]\<close> fails on no rows,
      and the frame constructor rejects data whose width is not that of the header\<close>
  "process_excel_file sheet =
     (case sheet of
        Inl e \<Rightarrow> Inl e
      | Inr data \<Rightarrow>
          (case data of
             [] \<Rightarrow> Inl IndexError
           | header # body \<Rightarrow>
               if body = [] \<or> (list_all (\<lambda>row. length row \<le> length header) body \<and>
                                list_ex (\<lambda>row. length row = length header) body)
               then Inr (map (\<lambda>k. (header ! k, map (\<lambda>row. cell_at row k) body)) [0..<length header])
               else Inl ValueError))"

section \<open>The pipeline\<close>

text \<open>
  An upload is the declared media type together with what the two parsers of the
  libraries return on its bytes: the frame of \<open>pd.read_csv\<close> on the decoded text, and
  the rows of the active sheet of the workbook, or in either case the exception that
  decoding or parsing raises. Neither parser is code of the repository.
\<close>

record upload =
  ftype :: string
  csv_frame :: "py_exn + frame"
  sheet_rows :: "py_exn + cell list list"

datatype event =
    WriteType string
  | ErrorUnsupported
  | ErrorProcessing py_exn
  | ShowFrame frame
  | ShowTotal cell

definition unavailable :: cell where
  "unavailable = CStr ''N/A (Amount column not found)''"

definition load :: "upload \<Rightarrow> py_exn + event list \<times> frame option" where
  \<comment> \<open>the chain on \<open>uploaded_file.type\<close>: the messages shown and the binding of the
      local variable \<open>df\<close> afterwards. \<open>process_pdf_file\<close> and \<open>process_docx_file\<close> are
      names that no module of the repository defines.\<close>
  "load u =
     (if ftype u = ''text/csv'' then map_sum (\<lambda>e. e) (\<lambda>df. ([], Some df)) (csv_frame u)
      else if ftype u = ''application/vnd.openxmlformats-officedocument.spreadsheetml.sheet''
        then map_sum (\<lambda>e. e) (\<lambda>df. ([], Some df)) (process_excel_file (sheet_rows u))
      else if ftype u = ''application/pdf'' then Inl (NameError ''process_pdf_file'')
      else if ftype u = ''application/vnd.openxmlformats-officedocument.wordprocessingml.document''
        then Inl (NameError ''process_docx_file'')
      else Inr ([ErrorUnsupported], None))"

definition total_amount_of :: "frame \<Rightarrow> py_exn + cell" where
  "total_amount_of df =
     (if has_column df ''Amount''
      then (case getitem df ''Amount'' of Inl e \<Rightarrow> Inl e | Inr col \<Rightarrow> series_sum col)
      else Inr unavailable)"

definition add_column :: "string \<Rightarrow> (cell \<Rightarrow> py_exn + string option) \<Rightarrow> frame \<Rightarrow> py_exn + frame" where
  \<comment> \<open>\<open>df[name] = df['Narration'].apply(f)\<close>\<close>
  "add_column name f df =
     (case getitem df ''Narration'' of
        Inl e \<Rightarrow> Inl e
      | Inr col \<Rightarrow> (case apply_series f col of Inl e \<Rightarrow> Inl e | Inr vs \<Rightarrow> Inr (setitem df name vs)))"

definition classify :: "frame \<Rightarrow> py_exn + frame" where
  "classify df =
     (case add_column ''Name'' extract_sender_receiver_name df of
        Inl e \<Rightarrow> Inl e
      | Inr df1 \<Rightarrow>
          (case add_column ''Payment_Method'' extract_payment_method df1 of
             Inl e \<Rightarrow> Inl e
           | Inr df2 \<Rightarrow> add_column ''Payment_Platform'' (\<lambda>c. Inr (extract_payment_platform c)) df2))"

definition data_processing :: "frame option \<Rightarrow> py_exn + frame \<times> cell" where
  \<comment> \<open>the statements after the chain, up to the two displays; reading \<open>df\<close> while it
      is unbound raises\<close>
  "data_processing v =
     (case v of
        None \<Rightarrow> Inl (UnboundLocalError ''df'')
      | Some df \<Rightarrow>
          (case total_amount_of df of
             Inl e \<Rightarrow> Inl e
           | Inr total_amount \<Rightarrow>
               (case classify df of Inl e \<Rightarrow> Inl e | Inr df' \<Rightarrow> Inr (df', total_amount))))"

definition main :: "upload option \<Rightarrow> event list" where
  \<comment> \<open>what \<open>main\<close> shows up to the total; the charts and the download buttons that
      follow are not modelled. Every exception inside the \<open>try\<close> block is shown as
      \<open>Error processing file\<close>.\<close>
  "main uploaded_file =
     (case uploaded_file of
        None \<Rightarrow> []
      | Some u \<Rightarrow>
          WriteType (ftype u) #
          (case load u of
             Inl e \<Rightarrow> [ErrorProcessing e]
           | Inr (shown, df) \<Rightarrow>
               shown @
               (case data_processing df of
                  Inl e \<Rightarrow> [ErrorProcessing e]
                | Inr (df', total_amount) \<Rightarrow> [ShowFrame df', ShowTotal total_amount])))"

section \<open>What the specification says about the total\<close>





section \<open>The values of the heuristics as functions of the narration text\<close>

definition name_of :: "string \<Rightarrow> string option" where
  "name_of s = (case findall name_rx s of [] \<Rightarrow> None | x # _ \<Rightarrow> Some x)"

definition method_of :: "string \<Rightarrow> string option" where
  "method_of s = (case findall method_rx s of [] \<Rightarrow> None | x # _ \<Rightarrow> Some x)"

definition platform_of :: "string \<Rightarrow> string option" where
  "platform_of s = extract_payment_platform (CStr s)"


section \<open>What the specification says about the name\<close>

fun split_on :: "(char \<Rightarrow> bool) \<Rightarrow> string \<Rightarrow> string list" where
  \<comment> \<open>the pieces of a string between its separator characters\<close>
  "split_on sep [] = [[]]"
| "split_on sep (c # cs) =
     (if sep c then [] # split_on sep cs
      else (case split_on sep cs of [] \<Rightarrow> [[c]] | t # ts \<Rightarrow> (c # t) # ts))"

definition upper_token :: "string \<Rightarrow> bool" where
  \<comment> \<open>a non-empty word of the letters A to Z\<close>
  "upper_token t = (t \<noteq> [] \<and> list_all is_AZ t)"

definition token_seq :: "(char \<Rightarrow> bool) \<Rightarrow> string \<Rightarrow> bool" where
  \<comment> \<open>one or more upper-case tokens, separated by one separator character each\<close>
  "token_seq sep xs = list_all upper_token (split_on sep xs)"

definition token_run :: "(char \<Rightarrow> bool) \<Rightarrow> string \<Rightarrow> bool" where
  \<comment> \<open>two or more such tokens\<close>
  "token_run sep xs = (2 \<le> length (split_on sep xs) \<and> token_seq sep xs)"

definition is_name_run :: "(char \<Rightarrow> bool) \<Rightarrow> string \<Rightarrow> nat \<Rightarrow> nat \<Rightarrow> bool" where
  \<comment> \<open>\<open>s[i:j]\<close> is a run of two or more tokens, and its first and last token are
      whole words of \<open>s\<close>\<close>
  "is_name_run sep s i j =
     (i < j \<and> j \<le> length s \<and> word_boundary s i \<and> word_boundary s j \<and> token_run sep (slice s i j))"

definition first_maximal_run :: "(char \<Rightarrow> bool) \<Rightarrow> string \<Rightarrow> string option" where
  \<comment> \<open>the run with the leftmost start and, from that start, the farthest end\<close>
  "first_maximal_run sep s =
     (case [(i, j). i \<leftarrow> [0..<Suc (length s)], j \<leftarrow> rev [i..<Suc (length s)], is_name_run sep s i j] of
        [] \<Rightarrow> None
      | (i, j) # _ \<Rightarrow> Some (slice s i j))"

definition literal_space :: "char \<Rightarrow> bool" where
  \<comment> \<open>the space character U+0020 and no other\<close>
  "literal_space c = (c = CHR '' '')"



section \<open>Positions in a narration\<close>

definition upper_end :: "string \<Rightarrow> nat \<Rightarrow> nat" where
  \<comment> \<open>where the letters A to Z that start at \<open>i\<close> end\<close>
  "upper_end s i = i + length (takeWhile is_AZ (drop i s))"

function group_ends :: "string \<Rightarrow> nat \<Rightarrow> nat list" where
  \<comment> \<open>the ends of one, two, ... groups \<open>[A-Z]+\s\<close> from \<open>i\<close> on\<close>
  "group_ends s i =
     (if i < upper_end s i \<and> upper_end s i < length s \<and> py_isspace (s ! upper_end s i)
      then Suc (upper_end s i) # group_ends s (Suc (upper_end s i))
      else [])"
  by pat_completeness auto
termination
  by (relation "measure (\<lambda>(s, i). length s - i)") auto

definition run_ends :: "string \<Rightarrow> nat \<Rightarrow> nat list" where
  \<comment> \<open>the ends of the matches of \<open>(?:[A-Z]+\s)+[A-Z]+\b\<close> from \<open>i\<close> on, in the order of
      \<open>ends\<close>\<close>
  "run_ends s i = concat (map (\<lambda>g. ends (Cat (Plus (In is_AZ)) Bnd) s g) (rev (group_ends s i)))"

section \<open>The first match of a search\<close>

lemma name_result:
  "extract_sender_receiver_name v =
     Inr (case findall name_rx (handle_nan v) of [] \<Rightarrow> None | x # _ \<Rightarrow> Some x)"
  by (simp add: extract_sender_receiver_name_def subscript0_def Let_def split: list.split)

lemma method_result:
  "extract_payment_method v =
     Inr (case findall method_rx (handle_nan v) of [] \<Rightarrow> None | x # _ \<Rightarrow> Some x)"
  by (simp add: extract_payment_method_def subscript0_def Let_def split: list.split)

lemma head_concat_map:
  "(case concat (map f xs) of [] \<Rightarrow> None | y # _ \<Rightarrow> Some y) =
   (case List.find (\<lambda>x. f x \<noteq> []) xs of None \<Rightarrow> None | Some x \<Rightarrow> Some (hd (f x)))"
proof (induction xs)
  case Nil
  then show ?case by simp
next
  case (Cons a xs)
  then show ?case by (cases "f a") simp_all
qed

lemma concat_map_if:
  "concat (map (\<lambda>x. if P x then [f x] else []) xs) = map f (filter P xs)"
  by (induction xs) simp_all

lemma hd_filter: "filter P xs \<noteq> [] \<Longrightarrow> P (hd (filter P xs))"
  using hd_in_set[of "filter P xs"] by simp

lemma findall_from_head:
  "i \<le> Suc (length s) \<Longrightarrow>
   (case findall_from r s i of [] \<Rightarrow> None | x # _ \<Rightarrow> Some x) =
   (case List.find (\<lambda>k. ends r s k \<noteq> []) [i..<Suc (length s)] of
      None \<Rightarrow> None | Some k \<Rightarrow> Some (slice s k (hd (ends r s k))))"
proof (induction r s i rule: findall_from.induct)
  case (1 r s i)
  show ?case
  proof (cases "length s < i")
    case True
    with "1.prems" have "i = Suc (length s)" by simp
    then show ?thesis by simp
  next
    case False
    then have up: "[i..<Suc (length s)] = i # [Suc i..<Suc (length s)]"
      by (simp add: upt_conv_Cons)
    show ?thesis
    proof (cases "ends r s i")
      case Nil
      with False "1.IH"(1) show ?thesis
        by (simp add: up del: upt_Suc)
    next
      case (Cons j js)
      with False show ?thesis
        by (simp add: up del: upt_Suc)
    qed
  qed
qed

lemma findall_head:
  "(case findall r s of [] \<Rightarrow> None | x # _ \<Rightarrow> Some x) =
   (case List.find (\<lambda>k. ends r s k \<noteq> []) [0..<Suc (length s)] of
      None \<Rightarrow> None | Some k \<Rightarrow> Some (slice s k (hd (ends r s k))))"
  unfolding findall_def by (rule findall_from_head) simp

section \<open>The payment method\<close>

lemma ends_lit:
  "ends (lit t) s i = (if occurs_at t s i then [i + length t] else [])"
proof (induction t arbitrary: i)
  case Nil
  then show ?case by (simp add: occurs_at_def)
next
  case (Cons c cs)
  show ?case
  proof (cases "i < length s")
    case True
    then have "drop i s = s ! i # drop (Suc i) s"
      by (simp add: Cons_nth_drop_Suc)
    with True Cons show ?thesis
      by (simp add: occurs_at_def)
  next
    case False
    then show ?thesis by (simp add: occurs_at_def)
  qed
qed

lemma ends_method_rx:
  "ends method_rx s i =
     map (\<lambda>t. i + length t) (filter (\<lambda>t. before_boundary t s i) method_tokens)"
  by (simp add: method_rx_def method_tokens_def ends_lit before_boundary_def del: lit.simps)

lemma slice_occurs: "occurs_at t s i \<Longrightarrow> slice s i (i + length t) = t"
  by (auto simp: occurs_at_def slice_def prefix_def)

lemma method_nonempty:
  "ends method_rx s i \<noteq> [] \<longleftrightarrow> [t \<leftarrow> method_tokens. before_boundary t s i] \<noteq> []"
  by (simp add: ends_method_rx)

lemma method_token_at:
  assumes "ends method_rx s i \<noteq> []"
  shows "slice s i (hd (ends method_rx s i)) = hd [t \<leftarrow> method_tokens. before_boundary t s i]"
proof -
  let ?ts = "[t \<leftarrow> method_tokens. before_boundary t s i]"
  from assms have ne: "?ts \<noteq> []" by (simp add: method_nonempty)
  then have "before_boundary (hd ?ts) s i" by (rule hd_filter)
  then have "slice s i (i + length (hd ?ts)) = hd ?ts"
    by (simp add: before_boundary_def slice_occurs)
  with ne show ?thesis by (simp add: ends_method_rx hd_map)
qed

lemma leftmost_token_find:
  "leftmost_token occ s =
   (case List.find (\<lambda>i. [t \<leftarrow> method_tokens. occ t s i] \<noteq> []) [0..<Suc (length s)] of
      None \<Rightarrow> None | Some i \<Rightarrow> Some (hd [t \<leftarrow> method_tokens. occ t s i]))"
proof -
  have "[t. i \<leftarrow> [0..<Suc (length s)], t \<leftarrow> method_tokens, occ t s i] =
        concat (map (\<lambda>i. [t \<leftarrow> method_tokens. occ t s i]) [0..<Suc (length s)])"
    by (simp only: concat_map_if list.map_ident)
  then show ?thesis
    unfolding leftmost_token_def by (simp only: head_concat_map)
qed

text \<open>
  C1, as the code has it. The method extractor returns the token of the leftmost
  position at which one of \<open>UPI\<close>, \<open>IMPS\<close>, \<open>NEFT\<close>, \<open>RTGS\<close> is written and is
  followed by a word boundary (the end of the text or a non-word character), and
  \<open>None\<close> when there is no such position. The pattern has \<open>\b\<close> after the
  alternation only, so the character before the token is not examined; of two such
  occurrences the left one wins.
\<close>

theorem method_is_leftmost_token_before_boundary:
  "extract_payment_method v = Inr (leftmost_token before_boundary (handle_nan v))"
proof -
  let ?s = "handle_nan v"
  have "List.find (\<lambda>k. ends method_rx ?s k \<noteq> []) [0..<Suc (length ?s)] =
        List.find (\<lambda>i. [t \<leftarrow> method_tokens. before_boundary t ?s i] \<noteq> []) [0..<Suc (length ?s)]"
    by (simp only: method_nonempty)
  moreover have "\<And>k. List.find (\<lambda>k. ends method_rx ?s k \<noteq> []) [0..<Suc (length ?s)] = Some k \<Longrightarrow>
        slice ?s k (hd (ends method_rx ?s k)) = hd [t \<leftarrow> method_tokens. before_boundary t ?s k]"
    by (rule method_token_at) (auto simp: find_Some_iff)
  ultimately have "(case findall method_rx ?s of [] \<Rightarrow> None | x # _ \<Rightarrow> Some x) =
        leftmost_token before_boundary ?s"
    unfolding findall_head leftmost_token_find
    by (auto split: option.splits)
  then show ?thesis by (simp add: method_result)
qed

theorem method_is_leftmost_token_before_boundary_witness:
  "extract_payment_method (CStr ''NEFT to UPI'') = Inr (Some ''NEFT'') \<and>
   leftmost_token before_boundary ''NEFT to UPI'' = Some ''NEFT''"
proof -
  have "leftmost_token before_boundary ''NEFT to UPI'' = Some ''NEFT''"
    by code_simp
  with method_is_leftmost_token_before_boundary [of "CStr ''NEFT to UPI''"]
  show ?thesis by simp
qed

text \<open>
  C1 as the specification words it fails: in \<open>XUPI NEFT\<close> the only whole-word token
  is \<open>NEFT\<close>, and the extractor returns \<open>UPI\<close>, taken from inside \<open>XUPI\<close>.
\<close>

theorem method_whole_word_counterexample:
  "extract_payment_method (CStr ''XUPI NEFT'') = Inr (Some ''UPI'') \<and>
   leftmost_token whole_word ''XUPI NEFT'' = Some ''NEFT''"
  by code_simp

section \<open>The payment platform\<close>

lemma platform_first_rule:
  "extract_payment_platform v = first_rule (py_lower (handle_nan v))"
  by (simp add: extract_payment_platform_def first_rule_def platform_rules_def rule_matches_def
      contains_def py_in_def sublist_def Let_def)

lemma platform_closed: "extract_payment_platform v \<in> platform_labels"
  by (simp add: extract_payment_platform_def platform_labels_def Let_def)

text \<open>
  C2. The classifier evaluates the rule table \<open>platform_rules\<close> on the lower-cased
  narration and returns the value of the first rule, in table order, one of whose
  keywords the narration contains, or \<open>None\<close>; the result is always one of the five
  values or \<open>None\<close> (the code writes two of them with a space, \<open>Bharat Pay\<close> and
  \<open>Google Pay\<close>); two narrations that differ in letter case only get the same
  result; and a narration that contains both \<open>paytm\<close> and \<open>@ok\<close>, in whatever order,
  and no keyword of the first rule, is classified as Paytm.
\<close>

theorem platform_rule_table:
  "extract_payment_platform v = first_rule (py_lower (handle_nan v)) \<and>
   extract_payment_platform v \<in> platform_labels \<and>
   (py_lower s = py_lower t \<longrightarrow>
      extract_payment_platform (CStr s) = extract_payment_platform (CStr t)) \<and>
   (contains (py_lower s) ''paytm'' \<and> contains (py_lower s) ''@ok'' \<and>
    \<not> rule_matches (py_lower s) (hd platform_rules) \<longrightarrow>
      extract_payment_platform (CStr s) = Some ''Paytm'')"
proof (intro conjI impI)
  show "extract_payment_platform v = first_rule (py_lower (handle_nan v))"
    by (rule platform_first_rule)
  show "extract_payment_platform v \<in> platform_labels"
    by (rule platform_closed)
  show "extract_payment_platform (CStr s) = extract_payment_platform (CStr t)"
    if "py_lower s = py_lower t"
    using that by (simp add: extract_payment_platform_def)
  show "extract_payment_platform (CStr s) = Some ''Paytm''"
    if "contains (py_lower s) ''paytm'' \<and> contains (py_lower s) ''@ok'' \<and>
        \<not> rule_matches (py_lower s) (hd platform_rules)"
    using that
    by (simp add: platform_first_rule first_rule_def platform_rules_def rule_matches_def)
qed

lemma example_contains_paytm: "contains (py_lower ''ref@OKaxis PayTM'') ''paytm''"
  unfolding contains_def sublist_def[symmetric] by code_simp

lemma example_contains_ok: "contains (py_lower ''ref@OKaxis PayTM'') ''@ok''"
  unfolding contains_def sublist_def[symmetric] by code_simp

lemma example_no_phonepe: "\<not> rule_matches (py_lower ''ref@OKaxis PayTM'') (hd platform_rules)"
  unfolding rule_matches_def contains_def sublist_def[symmetric] by code_simp

theorem platform_rule_table_witness:
  "py_lower ''ref@OKaxis PayTM'' = py_lower ''REF@okAXIS paytm'' \<and>
   contains (py_lower ''ref@OKaxis PayTM'') ''paytm'' \<and>
   contains (py_lower ''ref@OKaxis PayTM'') ''@ok'' \<and>
   \<not> rule_matches (py_lower ''ref@OKaxis PayTM'') (hd platform_rules) \<and>
   extract_payment_platform (CStr ''ref@OKaxis PayTM'') = Some ''Paytm'' \<and>
   extract_payment_platform (CStr ''REF@okAXIS paytm'') = Some ''Paytm'' \<and>
   first_rule (py_lower ''ref@OKaxis PayTM'') = Some ''Paytm''"
proof -
  let ?a = "''ref@OKaxis PayTM''" and ?b = "''REF@okAXIS paytm''"
  have eq: "py_lower ?a = py_lower ?b"
    by code_simp
  note t = platform_rule_table [of "CStr ?a" ?a ?b]
  from t have a: "extract_payment_platform (CStr ?a) = first_rule (py_lower ?a)"
    by simp
  from t eq have b: "extract_payment_platform (CStr ?a) = extract_payment_platform (CStr ?b)"
    by blast
  from t example_contains_paytm example_contains_ok example_no_phonepe
  have c: "extract_payment_platform (CStr ?a) = Some ''Paytm''"
    by blast
  from b c have d: "extract_payment_platform (CStr ?b) = Some ''Paytm''"
    by simp
  from a c have e: "first_rule (py_lower ?a) = Some ''Paytm''"
    by simp
  show ?thesis
    by (intro conjI eq example_contains_paytm example_contains_ok example_no_phonepe c d e)
qed

section \<open>The pipeline on an upload that it cannot load\<close>

text \<open>
  C3. An upload whose declared type is none of the four, here \<open>text/plain\<close>: the
  pipeline consults no parser (the result is the same for every \<open>c\<close> and \<open>r\<close>) and
  shows \<open>Unsupported file format\<close>, but then goes on to the data processing, where
  \<open>df\<close> is unbound, and shows a second error, \<open>Error processing file\<close> with the
  \<open>UnboundLocalError\<close>.
\<close>

theorem unsupported_type_shows_two_errors:
  "main (Some \<lparr>ftype = ''text/plain'', csv_frame = c, sheet_rows = r\<rparr>) =
     [WriteType ''text/plain'', ErrorUnsupported, ErrorProcessing (UnboundLocalError ''df'')]"
  by (simp add: main_def load_def data_processing_def)

lemma unsupported_type_in_general:
  assumes "ftype u \<noteq> ''text/csv''"
    and "ftype u \<noteq> ''application/vnd.openxmlformats-officedocument.spreadsheetml.sheet''"
    and "ftype u \<noteq> ''application/pdf''"
    and "ftype u \<noteq> ''application/vnd.openxmlformats-officedocument.wordprocessingml.document''"
  shows "main (Some u) =
     [WriteType (ftype u), ErrorUnsupported, ErrorProcessing (UnboundLocalError ''df'')]"
  using assms by (simp add: main_def load_def data_processing_def)

text \<open>
  C5. A PDF or word-processing upload: the branch calls \<open>process_pdf_file\<close>
  (\<open>process_docx_file\<close>), a name that is defined nowhere, so the pipeline shows
  \<open>Error processing file\<close> with the \<open>NameError\<close> and no record at all.
\<close>

theorem document_upload_shows_name_error:
  "main (Some \<lparr>ftype = ''application/pdf'', csv_frame = c, sheet_rows = r\<rparr>) =
     [WriteType ''application/pdf'', ErrorProcessing (NameError ''process_pdf_file'')] \<and>
   main (Some \<lparr>ftype = ''application/vnd.openxmlformats-officedocument.wordprocessingml.document'',
               csv_frame = c, sheet_rows = r\<rparr>) =
     [WriteType ''application/vnd.openxmlformats-officedocument.wordprocessingml.document'',
      ErrorProcessing (NameError ''process_docx_file'')]"
  by (simp add: main_def load_def)

text \<open>The two text extractors that the source defines and never calls.\<close>

lemma foldl_append_concat:
  "foldl (\<lambda>text page. text @ f page) acc pages = acc @ concat (map f pages)"
  by (induction pages arbitrary: acc) simp_all

lemma extract_text_from_pdf_concat: "extract_text_from_pdf pages = concat pages"
  using foldl_append_concat [of "\<lambda>p. p" "[]" pages] by simp

lemma extract_text_from_docx_concat:
  "extract_text_from_docx paragraphs = concat (map (\<lambda>p. p @ [CHR 0x0A]) paragraphs)"
  using foldl_append_concat [of "\<lambda>p. p @ [CHR 0x0A]" "[]" paragraphs] by simp

section \<open>The total amount\<close>






section \<open>The derived columns\<close>

lemma traverse_total: "(\<And>x. f x = Inr (g x)) \<Longrightarrow> traverse f xs = Inr (map g xs)"
  by (induction xs) simp_all

lemma getitem_setitem:
  "getitem (setitem df name col) name' = (if name' = name then Inr col else getitem df name')"
  by (simp add: getitem_def setitem_def update_conv')

lemma add_column_total:
  assumes "\<And>x. f x = Inr (g (handle_nan x))" and "getitem df ''Narration'' = Inr ns"
  shows "add_column name f df = Inr (setitem df name (map (\<lambda>x. to_cell (g (handle_nan x))) ns))"
proof -
  have "traverse f ns = Inr (map (\<lambda>x. g (handle_nan x)) ns)"
    by (rule traverse_total) (rule assms(1))
  with assms(2) show ?thesis
    by (simp add: add_column_def apply_series_def comp_def)
qed

lemma platform_of_handle_nan: "extract_payment_platform x = platform_of (handle_nan x)"
  by (simp add: platform_of_def extract_payment_platform_def)

lemma classify_columns:
  assumes "getitem df ''Narration'' = Inr ns"
  shows "classify df = Inr
     (setitem (setitem (setitem df ''Name'' (map (\<lambda>x. to_cell (name_of (handle_nan x))) ns))
        ''Payment_Method'' (map (\<lambda>x. to_cell (method_of (handle_nan x))) ns))
        ''Payment_Platform'' (map (\<lambda>x. to_cell (platform_of (handle_nan x))) ns))"
proof -
  let ?d1 = "setitem df ''Name'' (map (\<lambda>x. to_cell (name_of (handle_nan x))) ns)"
  let ?d2 = "setitem ?d1 ''Payment_Method'' (map (\<lambda>x. to_cell (method_of (handle_nan x))) ns)"
  have 1: "add_column ''Name'' extract_sender_receiver_name df = Inr ?d1"
    by (rule add_column_total [where g = name_of, OF _ assms])
       (simp add: name_result name_of_def)
  have n1: "getitem ?d1 ''Narration'' = Inr ns"
    by (simp add: getitem_setitem assms)
  have 2: "add_column ''Payment_Method'' extract_payment_method ?d1 = Inr ?d2"
    by (rule add_column_total [where g = method_of, OF _ n1])
       (simp add: method_result method_of_def)
  have n2: "getitem ?d2 ''Narration'' = Inr ns"
    by (simp add: getitem_setitem assms)
  have 3: "add_column ''Payment_Platform'' (\<lambda>c. Inr (extract_payment_platform c)) ?d2 =
        Inr (setitem ?d2 ''Payment_Platform'' (map (\<lambda>x. to_cell (platform_of (handle_nan x))) ns))"
    by (rule add_column_total [where g = platform_of, OF _ n2])
       (simp add: platform_of_handle_nan)
  show ?thesis
    by (simp add: classify_def 1 2 3)
qed

text \<open>
  C9. Two frames, from whatever loader, that the pipeline has enriched; a row \<open>i\<close> of
  the first and a row \<open>j\<close> of the second with the same narration text. Then the
  three derived columns exist in both frames and agree on these two rows.
\<close>

theorem derived_fields_function_of_narration:
  assumes "classify df = Inr df'" and "classify ef = Inr ef'"
    and "getitem df ''Narration'' = Inr ns" and "getitem ef ''Narration'' = Inr ms"
    and "i < length ns" and "j < length ms"
    and "handle_nan (ns ! i) = handle_nan (ms ! j)"
  shows "\<exists>a a' b b' c c'.
           getitem df' ''Name'' = Inr a \<and> getitem ef' ''Name'' = Inr a' \<and> a ! i = a' ! j \<and>
           getitem df' ''Payment_Method'' = Inr b \<and> getitem ef' ''Payment_Method'' = Inr b' \<and>
           b ! i = b' ! j \<and>
           getitem df' ''Payment_Platform'' = Inr c \<and> getitem ef' ''Payment_Platform'' = Inr c' \<and>
           c ! i = c' ! j"
proof -
  from assms(1) classify_columns [OF assms(3)] have d: "df' =
     setitem (setitem (setitem df ''Name'' (map (\<lambda>x. to_cell (name_of (handle_nan x))) ns))
        ''Payment_Method'' (map (\<lambda>x. to_cell (method_of (handle_nan x))) ns))
        ''Payment_Platform'' (map (\<lambda>x. to_cell (platform_of (handle_nan x))) ns)"
    by simp
  from assms(2) classify_columns [OF assms(4)] have e: "ef' =
     setitem (setitem (setitem ef ''Name'' (map (\<lambda>x. to_cell (name_of (handle_nan x))) ms))
        ''Payment_Method'' (map (\<lambda>x. to_cell (method_of (handle_nan x))) ms))
        ''Payment_Platform'' (map (\<lambda>x. to_cell (platform_of (handle_nan x))) ms)"
    by simp
  show ?thesis
    unfolding d e using assms(5-7) by (simp add: getitem_setitem)
qed

theorem derived_fields_function_of_narration_witness:
  "classify [(CStr ''Narration'', [CStr ''cash wdl'', CStr ''UPI to JOHN SMITH''])] =
     Inr [(CStr ''Narration'', [CStr ''cash wdl'', CStr ''UPI to JOHN SMITH'']),
          (CStr ''Name'', [CNull, CStr ''JOHN SMITH'']),
          (CStr ''Payment_Method'', [CNull, CStr ''UPI'']),
          (CStr ''Payment_Platform'', [CStr ''ATM'', CNull])] \<and>
   classify [(CStr ''Narration'', [CStr ''UPI to JOHN SMITH'']), (CStr ''Amount'', [CNum 5])] =
     Inr [(CStr ''Narration'', [CStr ''UPI to JOHN SMITH'']), (CStr ''Amount'', [CNum 5]),
          (CStr ''Name'', [CStr ''JOHN SMITH'']),
          (CStr ''Payment_Method'', [CStr ''UPI'']),
          (CStr ''Payment_Platform'', [CNull])] \<and>
   (\<exists>a a'.
      getitem [(CStr ''Narration'', [CStr ''cash wdl'', CStr ''UPI to JOHN SMITH'']),
               (CStr ''Name'', [CNull, CStr ''JOHN SMITH'']),
               (CStr ''Payment_Method'', [CNull, CStr ''UPI'']),
               (CStr ''Payment_Platform'', [CStr ''ATM'', CNull])] ''Name'' = Inr a \<and>
      getitem [(CStr ''Narration'', [CStr ''UPI to JOHN SMITH'']), (CStr ''Amount'', [CNum 5]),
               (CStr ''Name'', [CStr ''JOHN SMITH'']),
               (CStr ''Payment_Method'', [CStr ''UPI'']),
               (CStr ''Payment_Platform'', [CNull])] ''Name'' = Inr a' \<and>
      a ! 1 = a' ! 0)"
proof -
  let ?df = "[(CStr ''Narration'', [CStr ''cash wdl'', CStr ''UPI to JOHN SMITH''])]"
  let ?ef = "[(CStr ''Narration'', [CStr ''UPI to JOHN SMITH'']), (CStr ''Amount'', [CNum 5])]"
  let ?D = "[(CStr ''Narration'', [CStr ''cash wdl'', CStr ''UPI to JOHN SMITH'']),
          (CStr ''Name'', [CNull, CStr ''JOHN SMITH'']),
          (CStr ''Payment_Method'', [CNull, CStr ''UPI'']),
          (CStr ''Payment_Platform'', [CStr ''ATM'', CNull])]"
  let ?E = "[(CStr ''Narration'', [CStr ''UPI to JOHN SMITH'']), (CStr ''Amount'', [CNum 5]),
          (CStr ''Name'', [CStr ''JOHN SMITH'']),
          (CStr ''Payment_Method'', [CStr ''UPI'']),
          (CStr ''Payment_Platform'', [CNull])]"
  have c1: "classify ?df = Inr ?D" by code_simp
  have c2: "classify ?ef = Inr ?E" by code_simp
  have g1: "getitem ?df ''Narration'' = Inr [CStr ''cash wdl'', CStr ''UPI to JOHN SMITH'']"
    by (simp add: getitem_def)
  have g2: "getitem ?ef ''Narration'' = Inr [CStr ''UPI to JOHN SMITH'']"
    by (simp add: getitem_def)
  from derived_fields_function_of_narration [OF c1 c2 g1 g2, of 1 0]
  have "\<exists>a a'. getitem ?D ''Name'' = Inr a \<and> getitem ?E ''Name'' = Inr a' \<and> a ! 1 = a' ! 0"
    by auto
  with c1 c2 show ?thesis by (intro conjI)
qed

section \<open>The name pattern, position by position\<close>


declare group_ends.simps [simp del]

subsection \<open>Runs of upper-case letters\<close>

lemma AZ_not_space: "is_AZ c \<Longrightarrow> \<not> py_isspace c"
  by (auto simp: is_AZ_def py_isspace_def Let_def)

lemma AZ_word: "is_AZ c \<Longrightarrow> py_isword c"
  by (auto simp: is_AZ_def py_isword_def Let_def)

lemma upper_end_ge: "i \<le> upper_end s i"
  by (simp add: upper_end_def)

lemma upper_end_le: "i \<le> length s \<Longrightarrow> upper_end s i \<le> length s"
proof -
  assume "i \<le> length s"
  have "length (takeWhile is_AZ (drop i s)) \<le> length (drop i s)"
    by (rule length_takeWhile_le)
  with \<open>i \<le> length s\<close> show ?thesis by (simp add: upper_end_def)
qed

lemma upper_end_all: "i \<le> k \<Longrightarrow> k < upper_end s i \<Longrightarrow> is_AZ (s ! k)"
proof -
  assume a: "i \<le> k" "k < upper_end s i"
  let ?t = "takeWhile is_AZ (drop i s)"
  from a have k: "k - i < length ?t" by (simp add: upper_end_def)
  from nth_mem [OF k] have "?t ! (k - i) \<in> set ?t" .
  then have "is_AZ (?t ! (k - i))"
    by (rule set_takeWhileD [THEN conjunct2])
  moreover from k have "?t ! (k - i) = drop i s ! (k - i)"
    by (rule takeWhile_nth)
  moreover have "k - i < length (drop i s)"
    using k length_takeWhile_le [of is_AZ "drop i s"] by linarith
  ultimately show ?thesis using a by simp
qed

lemma upper_end_stop: "upper_end s i < length s \<Longrightarrow> \<not> is_AZ (s ! upper_end s i)"
proof -
  assume a: "upper_end s i < length s"
  let ?t = "takeWhile is_AZ (drop i s)"
  from a have "length ?t < length (drop i s)" by (simp add: upper_end_def)
  then have "\<not> is_AZ (drop i s ! length ?t)" by (rule nth_length_takeWhile)
  moreover from a have "i + length ?t \<le> length s" by (simp add: upper_end_def)
  ultimately show ?thesis by (simp add: upper_end_def)
qed

lemma upper_end_step:
  "i < length s \<Longrightarrow> is_AZ (s ! i) \<Longrightarrow> upper_end s i = upper_end s (Suc i)"
  by (simp add: upper_end_def Cons_nth_drop_Suc [symmetric])

lemma upper_end_here: "\<not> (i < length s \<and> is_AZ (s ! i)) \<Longrightarrow> upper_end s i = i"
  by (cases "i < length s") (simp_all add: upper_end_def Cons_nth_drop_Suc [symmetric])


subsection \<open>What the parts of the pattern match\<close>

lemma ends_plus_unfold:
  "ends (Plus a) s i =
     concat (map (\<lambda>j. (if i < j \<and> j \<le> length s then ends (Plus a) s j else []) @ [j])
                 (ends a s i))"
  by (rule ends.simps(7))

declare ends.simps(7) [simp del]

lemma ends_plus_AZ_step:
  "ends (Plus (In is_AZ)) s i =
     (if i < length s \<and> is_AZ (s ! i) then ends (Plus (In is_AZ)) s (Suc i) @ [Suc i] else [])"
  by (subst ends_plus_unfold) simp

lemma ends_plus_AZ: "ends (Plus (In is_AZ)) s i = rev [Suc i..<Suc (upper_end s i)]"
proof (induction "length s - i" arbitrary: i)
  case 0
  then have "\<not> (i < length s \<and> is_AZ (s ! i))" by simp
  then show ?case
    by (subst ends_plus_AZ_step) (simp add: upper_end_here)
next
  case (Suc n)
  show ?case
  proof (cases "i < length s \<and> is_AZ (s ! i)")
    case True
    from Suc.hyps(2) have "n = length s - Suc i" by simp
    then have ih: "ends (Plus (In is_AZ)) s (Suc i) = rev [Suc (Suc i)..<Suc (upper_end s (Suc i))]"
      by (rule Suc.hyps(1))
    from True have ue: "upper_end s i = upper_end s (Suc i)"
      by (simp add: upper_end_step)
    have "Suc i \<le> upper_end s (Suc i)" by (rule upper_end_ge)
    then have "[Suc i..<Suc (upper_end s (Suc i))] = Suc i # [Suc (Suc i)..<Suc (upper_end s (Suc i))]"
      by (simp add: upt_conv_Cons del: upt_Suc)
    with True ih ue show ?thesis
      by (subst ends_plus_AZ_step) (simp del: upt_Suc)
  next
    case False
    then show ?thesis
      by (subst ends_plus_AZ_step) (simp add: upper_end_here)
  qed
qed

lemma concat_last_only:
  assumes "\<And>j. a \<le> j \<Longrightarrow> j < b \<Longrightarrow> f j = []"
  shows "concat (map f (rev [a..<Suc b])) = (if a \<le> b then f b else [])"
proof (cases "a \<le> b")
  case True
  have "concat (map f (rev [a..<b])) = []"
    using assms by (simp add: concat_eq_Nil_conv)
  with True show ?thesis by simp
next
  case False
  then show ?thesis by simp
qed

lemma ends_group:
  "ends (Cat (Plus (In is_AZ)) (In py_isspace)) s i =
     (if i < upper_end s i \<and> upper_end s i < length s \<and> py_isspace (s ! upper_end s i)
      then [Suc (upper_end s i)] else [])"
proof -
  let ?e = "upper_end s i"
  have A: "ends (Cat (Plus (In is_AZ)) (In py_isspace)) s i =
        concat (map (\<lambda>j. ends (In py_isspace) s j) (rev [Suc i..<Suc ?e]))"
    by (simp only: ends.simps(5) ends_plus_AZ)
  have B: "concat (map (\<lambda>j. ends (In py_isspace) s j) (rev [Suc i..<Suc ?e])) =
        (if Suc i \<le> ?e then ends (In py_isspace) s ?e else [])"
  proof (rule concat_last_only)
    fix j assume "Suc i \<le> j" "j < ?e"
    then have "is_AZ (s ! j)" using upper_end_all [of i j s] by simp
    then show "ends (In py_isspace) s j = []" by (simp add: AZ_not_space)
  qed
  have C: "(if Suc i \<le> ?e then ends (In py_isspace) s ?e else []) =
        (if i < ?e \<and> ?e < length s \<and> py_isspace (s ! ?e) then [Suc ?e] else [])"
    by (simp add: Suc_le_eq)
  show ?thesis by (simp only: A B C)
qed

lemma inside_no_boundary:
  assumes "Suc i \<le> j" "j < upper_end s i"
  shows "\<not> word_boundary s j"
proof -
  from assms have "is_AZ (s ! j)" and "is_AZ (s ! (j - 1))"
    using upper_end_all [of i j s] upper_end_all [of i "j - 1" s] by simp_all
  moreover have "j < length s"
  proof (cases "i \<le> length s")
    case True
    with assms upper_end_le [of i s] show ?thesis by simp
  next
    case False
    then have "upper_end s i = i" by (simp add: upper_end_here)
    with assms show ?thesis by simp
  qed
  ultimately show ?thesis
    using assms by (simp add: word_boundary_def AZ_word)
qed

lemma ends_last_token:
  "ends (Cat (Plus (In is_AZ)) Bnd) s i =
     (if i < upper_end s i \<and> word_boundary s (upper_end s i) then [upper_end s i] else [])"
proof -
  let ?e = "upper_end s i"
  have A: "ends (Cat (Plus (In is_AZ)) Bnd) s i =
        concat (map (\<lambda>j. ends Bnd s j) (rev [Suc i..<Suc ?e]))"
    by (simp only: ends.simps(5) ends_plus_AZ)
  have B: "concat (map (\<lambda>j. ends Bnd s j) (rev [Suc i..<Suc ?e])) =
        (if Suc i \<le> ?e then ends Bnd s ?e else [])"
  proof (rule concat_last_only)
    fix j assume "Suc i \<le> j" "j < ?e"
    then have "\<not> word_boundary s j" by (rule inside_no_boundary)
    then show "ends Bnd s j = []" by simp
  qed
  have C: "(if Suc i \<le> ?e then ends Bnd s ?e else []) =
        (if i < ?e \<and> word_boundary s ?e then [?e] else [])"
    by (simp add: Suc_le_eq)
  show ?thesis by (simp only: A B C)
qed

lemma group_ends_step:
  "group_ends s i =
     (if i < upper_end s i \<and> upper_end s i < length s \<and> py_isspace (s ! upper_end s i)
      then Suc (upper_end s i) # group_ends s (Suc (upper_end s i))
      else [])"
  by (rule group_ends.simps)

lemma ends_groups_step:
  "ends (Plus (Cat (Plus (In is_AZ)) (In py_isspace))) s i =
     (if i < upper_end s i \<and> upper_end s i < length s \<and> py_isspace (s ! upper_end s i)
      then ends (Plus (Cat (Plus (In is_AZ)) (In py_isspace))) s (Suc (upper_end s i)) @
           [Suc (upper_end s i)]
      else [])"
proof -
  have "i \<le> upper_end s i" by (rule upper_end_ge)
  then show ?thesis
    by (subst ends_plus_unfold) (simp only: ends_group, simp)
qed

lemma ends_groups:
  "ends (Plus (Cat (Plus (In is_AZ)) (In py_isspace))) s i = rev (group_ends s i)"
proof (induction s i rule: group_ends.induct)
  case (1 s i)
  let ?e = "upper_end s i"
  show ?case
  proof (cases "i < ?e \<and> ?e < length s \<and> py_isspace (s ! ?e)")
    case True
    with "1.IH" have ih: "ends (Plus (Cat (Plus (In is_AZ)) (In py_isspace))) s (Suc ?e) =
        rev (group_ends s (Suc ?e))" by simp
    from True have ge: "group_ends s i = Suc ?e # group_ends s (Suc ?e)"
      by (subst group_ends_step) simp
    from True have "ends (Plus (Cat (Plus (In is_AZ)) (In py_isspace))) s i =
        ends (Plus (Cat (Plus (In is_AZ)) (In py_isspace))) s (Suc ?e) @ [Suc ?e]"
      by (subst ends_groups_step) simp
    with ih ge show ?thesis by simp
  next
    case False
    then have "group_ends s i = []"
      by (subst group_ends_step) simp
    moreover from False have "ends (Plus (Cat (Plus (In is_AZ)) (In py_isspace))) s i = []"
      by (subst ends_groups_step) simp
    ultimately show ?thesis by simp
  qed
qed

lemma ends_name_rx:
  "ends name_rx s i = (if word_boundary s i then run_ends s i else [])"
proof -
  let ?G = "Plus (Cat (Plus (In is_AZ)) (In py_isspace))"
  let ?F = "Cat (Plus (In is_AZ)) Bnd"
  have "ends (Cat ?G ?F) s i = run_ends s i"
    by (simp only: ends.simps(5) [of ?G ?F] ends_groups run_ends_def)
  moreover have "ends name_rx s i = concat (map (\<lambda>j. ends (Cat ?G ?F) s j) (ends Bnd s i))"
    by (simp only: name_rx_def ends.simps(5) [of Bnd])
  ultimately show ?thesis by simp
qed

subsection \<open>The tokens of a string\<close>

lemma split_on_hd_tl:
  "split_on sep xs = takeWhile (\<lambda>c. \<not> sep c) xs #
     (case dropWhile (\<lambda>c. \<not> sep c) xs of [] \<Rightarrow> [] | _ # r \<Rightarrow> split_on sep r)"
  by (induction xs) (auto split: list.splits)

lemma takeWhile_nonsep_AZ:
  "list_all is_AZ (takeWhile (\<lambda>c. \<not> py_isspace c) xs) \<Longrightarrow>
   takeWhile (\<lambda>c. \<not> py_isspace c) xs = takeWhile is_AZ xs"
  by (induction xs) (auto simp: AZ_not_space)

lemma takeWhile_AZ_nonsep:
  "length (takeWhile is_AZ xs) = length xs \<or> py_isspace (xs ! length (takeWhile is_AZ xs)) \<Longrightarrow>
   takeWhile (\<lambda>c. \<not> py_isspace c) xs = takeWhile is_AZ xs"
  by (induction xs) (auto simp: AZ_not_space split: if_splits)

lemma dropWhile_eq_drop: "dropWhile P xs = drop (length (takeWhile P xs)) xs"
  by (induction xs) auto

lemma split_on_first_token:
  assumes "length (takeWhile is_AZ xs) = length xs \<or> py_isspace (xs ! length (takeWhile is_AZ xs))"
  shows "split_on py_isspace xs =
     takeWhile is_AZ xs #
     (if length (takeWhile is_AZ xs) = length xs then []
      else split_on py_isspace (drop (Suc (length (takeWhile is_AZ xs))) xs))"
proof -
  let ?u = "length (takeWhile is_AZ xs)"
  from assms have t: "takeWhile (\<lambda>c. \<not> py_isspace c) xs = takeWhile is_AZ xs"
    by (rule takeWhile_AZ_nonsep)
  then have d: "dropWhile (\<lambda>c. \<not> py_isspace c) xs = drop ?u xs"
    by (simp add: dropWhile_eq_drop [of "\<lambda>c. \<not> py_isspace c"])
  have e: "split_on py_isspace xs = takeWhile (\<lambda>c. \<not> py_isspace c) xs #
     (case dropWhile (\<lambda>c. \<not> py_isspace c) xs of [] \<Rightarrow> [] | _ # r \<Rightarrow> split_on py_isspace r)"
    by (rule split_on_hd_tl)
  show ?thesis
  proof (cases "?u = length xs")
    case True
    with d have dn: "dropWhile (\<lambda>c. \<not> py_isspace c) xs = []" by simp
    show ?thesis
      unfolding e t dn using True by simp
  next
    case False
    then have "?u < length xs"
      using length_takeWhile_le [of is_AZ xs] by simp
    then have "drop ?u xs = xs ! ?u # drop (Suc ?u) xs"
      by (simp add: Cons_nth_drop_Suc)
    with d have dc: "dropWhile (\<lambda>c. \<not> py_isspace c) xs = xs ! ?u # drop (Suc ?u) xs" by simp
    show ?thesis
      unfolding e t dc using False by simp
  qed
qed

lemma split_on_bad_first_token:
  assumes "length (takeWhile is_AZ xs) < length xs"
    and "\<not> py_isspace (xs ! length (takeWhile is_AZ xs))"
  shows "\<not> list_all is_AZ (hd (split_on py_isspace xs))"
proof
  let ?u = "length (takeWhile is_AZ xs)"
  assume "list_all is_AZ (hd (split_on py_isspace xs))"
  then have a: "list_all is_AZ (takeWhile (\<lambda>c. \<not> py_isspace c) xs)"
    by (subst (asm) split_on_hd_tl) simp
  then have t: "takeWhile (\<lambda>c. \<not> py_isspace c) xs = takeWhile is_AZ xs"
    by (rule takeWhile_nonsep_AZ)
  then have d: "dropWhile (\<lambda>c. \<not> py_isspace c) xs = drop ?u xs"
    by (simp add: dropWhile_eq_drop [of "\<lambda>c. \<not> py_isspace c"])
  from assms(1) have c: "drop ?u xs = xs ! ?u # drop (Suc ?u) xs"
    by (simp add: Cons_nth_drop_Suc)
  have "dropWhile (\<lambda>c. \<not> py_isspace c) xs \<noteq> []" by (simp add: d c)
  then have "\<not> \<not> py_isspace (hd (dropWhile (\<lambda>c. \<not> py_isspace c) xs))"
    by (rule hd_dropWhile)
  with d c assms(2) show False by simp
qed

lemma split_on_nonempty: "split_on sep xs \<noteq> []"
  by (subst split_on_hd_tl) simp

lemma token_seq_unfold:
  "token_seq py_isspace xs \<longleftrightarrow>
     0 < length (takeWhile is_AZ xs) \<and>
     (length (takeWhile is_AZ xs) = length xs \<or>
      py_isspace (xs ! length (takeWhile is_AZ xs)) \<and>
      token_seq py_isspace (drop (Suc (length (takeWhile is_AZ xs))) xs))"
proof (cases "length (takeWhile is_AZ xs) = length xs \<or> py_isspace (xs ! length (takeWhile is_AZ xs))")
  case True
  have az: "list_all is_AZ (takeWhile is_AZ xs)"
    by (simp add: list_all_iff) (auto dest: set_takeWhileD)
  from True show ?thesis
    unfolding token_seq_def split_on_first_token [OF True]
    by (auto simp: upper_token_def az)
next
  case False
  then have lt: "length (takeWhile is_AZ xs) < length xs"
    using length_takeWhile_le [of is_AZ xs] by simp
  with False have "\<not> list_all is_AZ (hd (split_on py_isspace xs))"
    by (intro split_on_bad_first_token) simp_all
  then have "\<not> token_seq py_isspace xs"
    using split_on_nonempty [of py_isspace xs]
    by (cases "split_on py_isspace xs") (simp_all add: token_seq_def upper_token_def)
  with False show ?thesis by simp
qed

lemma token_run_unfold:
  "token_run py_isspace xs \<longleftrightarrow>
     0 < length (takeWhile is_AZ xs) \<and>
     length (takeWhile is_AZ xs) < length xs \<and>
     py_isspace (xs ! length (takeWhile is_AZ xs)) \<and>
     token_seq py_isspace (drop (Suc (length (takeWhile is_AZ xs))) xs)"
proof (cases "length (takeWhile is_AZ xs) = length xs \<or> py_isspace (xs ! length (takeWhile is_AZ xs))")
  case True
  have az: "list_all is_AZ (takeWhile is_AZ xs)"
    by (simp add: list_all_iff) (auto dest: set_takeWhileD)
  have le: "length (takeWhile is_AZ xs) \<le> length xs"
    by (rule length_takeWhile_le)
  from True le show ?thesis
    unfolding token_run_def token_seq_def split_on_first_token [OF True]
    using split_on_nonempty [of py_isspace "drop (Suc (length (takeWhile is_AZ xs))) xs"]
    by (cases "split_on py_isspace (drop (Suc (length (takeWhile is_AZ xs))) xs)")
       (auto simp: upper_token_def az)
next
  case False
  then have "\<not> token_seq py_isspace xs"
    by (subst token_seq_unfold) auto
  with False show ?thesis by (simp add: token_run_def)
qed

subsection \<open>The tokens of a slice\<close>

lemma length_takeWhile_take:
  "length (takeWhile P (take n xs)) = min n (length (takeWhile P xs))"
proof (induction xs arbitrary: n)
  case Nil
  then show ?case by simp
next
  case (Cons x xs)
  then show ?case by (cases n) simp_all
qed

lemma length_slice: "j \<le> length s \<Longrightarrow> length (slice s i j) = j - i"
  by (simp add: slice_def)

lemma nth_slice: "j \<le> length s \<Longrightarrow> k < j - i \<Longrightarrow> slice s i j ! k = s ! (i + k)"
  by (simp add: slice_def)

lemma drop_slice: "drop m (slice s i j) = slice s (i + m) j"
  by (simp add: slice_def drop_take add.commute)

lemma upper_run_slice:
  "length (takeWhile is_AZ (slice s i j)) = min (j - i) (upper_end s i - i)"
  by (simp add: slice_def length_takeWhile_take upper_end_def)

lemma token_seq_slice:
  assumes "i < j" "j \<le> length s"
  shows "token_seq py_isspace (slice s i j) \<longleftrightarrow>
     i < upper_end s i \<and>
     (j \<le> upper_end s i \<or>
      py_isspace (s ! upper_end s i) \<and> token_seq py_isspace (slice s (Suc (upper_end s i)) j))"
proof (cases "j \<le> upper_end s i")
  case True
  with assms have "length (takeWhile is_AZ (slice s i j)) = j - i"
    by (simp add: upper_run_slice)
  with assms True show ?thesis
    by (subst token_seq_unfold) (simp add: length_slice)
next
  case False
  have ge: "i \<le> upper_end s i" by (rule upper_end_ge)
  with False assms have u: "length (takeWhile is_AZ (slice s i j)) = upper_end s i - i"
    by (simp add: upper_run_slice)
  from False assms ge have n: "slice s i j ! (upper_end s i - i) = s ! upper_end s i"
    by (simp add: nth_slice)
  from ge have d: "drop (Suc (upper_end s i - i)) (slice s i j) = slice s (Suc (upper_end s i)) j"
    by (simp add: drop_slice)
  from False assms ge show ?thesis
    by (subst token_seq_unfold) (auto simp add: u n d length_slice)
qed

lemma token_run_slice:
  assumes "i < j" "j \<le> length s"
  shows "token_run py_isspace (slice s i j) \<longleftrightarrow>
     i < upper_end s i \<and> upper_end s i < j \<and> py_isspace (s ! upper_end s i) \<and>
     token_seq py_isspace (slice s (Suc (upper_end s i)) j)"
proof (cases "j \<le> upper_end s i")
  case True
  with assms have "length (takeWhile is_AZ (slice s i j)) = j - i"
    by (simp add: upper_run_slice)
  with assms True show ?thesis
    by (subst token_run_unfold) (simp add: length_slice)
next
  case False
  have ge: "i \<le> upper_end s i" by (rule upper_end_ge)
  with False assms have u: "length (takeWhile is_AZ (slice s i j)) = upper_end s i - i"
    by (simp add: upper_run_slice)
  from False assms ge have n: "slice s i j ! (upper_end s i - i) = s ! upper_end s i"
    by (simp add: nth_slice)
  from ge have d: "drop (Suc (upper_end s i - i)) (slice s i j) = slice s (Suc (upper_end s i)) j"
    by (simp add: drop_slice)
  from False assms ge show ?thesis
    by (subst token_run_unfold) (auto simp add: u n d length_slice)
qed

lemma token_seq_empty_slice: "j \<le> i \<Longrightarrow> \<not> token_seq py_isspace (slice s i j)"
  by (subst token_seq_unfold) (simp add: slice_def)

lemma token_seq_one_or_run:
  assumes "i < j" "j \<le> length s"
  shows "token_seq py_isspace (slice s i j) \<longleftrightarrow>
     j \<le> upper_end s i \<or> token_run py_isspace (slice s i j)"
proof -
  have "token_seq py_isspace (slice s (Suc (upper_end s i)) j) \<Longrightarrow> upper_end s i < j"
    using token_seq_empty_slice [of j "Suc (upper_end s i)" s] by (cases "upper_end s i < j") simp_all
  with assms show ?thesis
    unfolding token_seq_slice [OF assms] token_run_slice [OF assms] by auto
qed

subsection \<open>The matches from a position are the runs from that position\<close>

lemma run_ends_none:
  assumes "\<not> (i < upper_end s i \<and> upper_end s i < length s \<and> py_isspace (s ! upper_end s i))"
  shows "run_ends s i = []"
proof -
  from assms have "group_ends s i = []"
    by (subst group_ends_step) simp
  then show ?thesis by (simp only: run_ends_def rev.simps list.map concat.simps)
qed

lemma run_ends_some:
  assumes "i < upper_end s i \<and> upper_end s i < length s \<and> py_isspace (s ! upper_end s i)"
  shows "run_ends s i =
     run_ends s (Suc (upper_end s i)) @
     (if Suc (upper_end s i) < upper_end s (Suc (upper_end s i)) \<and>
         word_boundary s (upper_end s (Suc (upper_end s i)))
      then [upper_end s (Suc (upper_end s i))] else [])"
proof -
  let ?g = "Suc (upper_end s i)"
  from assms have ge: "group_ends s i = ?g # group_ends s ?g"
    by (subst group_ends_step) simp
  have "run_ends s i = run_ends s ?g @ ends (Cat (Plus (In is_AZ)) Bnd) s ?g"
    by (simp only: run_ends_def ge rev.simps map_append concat_append list.map concat.simps
        append_Nil2)
  then show ?thesis by (simp only: ends_last_token)
qed

lemma last_token_end:
  assumes "g \<le> length s"
  shows "g < j \<and> j \<le> length s \<and> word_boundary s j \<and> j \<le> upper_end s g \<longleftrightarrow>
         j = upper_end s g \<and> g < upper_end s g \<and> word_boundary s (upper_end s g)"
proof
  assume a: "g < j \<and> j \<le> length s \<and> word_boundary s j \<and> j \<le> upper_end s g"
  have "\<not> j < upper_end s g"
  proof
    assume "j < upper_end s g"
    with a have "\<not> word_boundary s j" by (intro inside_no_boundary [of g]) simp_all
    with a show False by simp
  qed
  with a show "j = upper_end s g \<and> g < upper_end s g \<and> word_boundary s (upper_end s g)"
    by auto
next
  assume "j = upper_end s g \<and> g < upper_end s g \<and> word_boundary s (upper_end s g)"
  with assms upper_end_le [of g s]
  show "g < j \<and> j \<le> length s \<and> word_boundary s j \<and> j \<le> upper_end s g" by simp
qed

lemma mem_run_ends:
  "j \<in> set (run_ends s i) \<longleftrightarrow>
     i < j \<and> j \<le> length s \<and> word_boundary s j \<and> token_run py_isspace (slice s i j)"
proof (induction s i arbitrary: j rule: group_ends.induct)
  case (1 s i)
  let ?e = "upper_end s i"
  let ?g = "Suc ?e"
  show ?case
  proof (cases "i < ?e \<and> ?e < length s \<and> py_isspace (s ! ?e)")
    case True
    then have gl: "?g \<le> length s" by simp
    from True "1.IH" have ih: "j \<in> set (run_ends s ?g) \<longleftrightarrow>
        ?g < j \<and> j \<le> length s \<and> word_boundary s j \<and> token_run py_isspace (slice s ?g j)"
      by simp
    have l: "j \<in> set (run_ends s i) \<longleftrightarrow>
        j \<in> set (run_ends s ?g) \<or>
        (j = upper_end s ?g \<and> ?g < upper_end s ?g \<and> word_boundary s (upper_end s ?g))"
      unfolding run_ends_some [OF True] by auto
    show ?thesis
    proof (cases "?g < j \<and> j \<le> length s")
      case inner: True
      then have ij: "i < j" "j \<le> length s" using True by simp_all
      from inner have gj: "?g < j" "j \<le> length s" by simp_all
      have r: "token_run py_isspace (slice s i j) \<longleftrightarrow>
          j \<le> upper_end s ?g \<or> token_run py_isspace (slice s ?g j)"
        using True inner
        by (simp add: token_run_slice [OF ij] token_seq_one_or_run [OF gj])
      from last_token_end [OF gl, of j] inner
      have "word_boundary s j \<and> j \<le> upper_end s ?g \<longleftrightarrow>
            j = upper_end s ?g \<and> ?g < upper_end s ?g \<and> word_boundary s (upper_end s ?g)"
        by simp
      then have "word_boundary s j \<and> (j \<le> upper_end s ?g \<or> token_run py_isspace (slice s ?g j)) \<longleftrightarrow>
            (word_boundary s j \<and> token_run py_isspace (slice s ?g j)) \<or>
            (j = upper_end s ?g \<and> ?g < upper_end s ?g \<and> word_boundary s (upper_end s ?g))"
        by blast
      with inner ij show ?thesis
        unfolding l ih r by blast
    next
      case outer: False
      have n1: "j \<notin> set (run_ends s ?g)" using outer ih by auto
      have n2: "\<not> (j = upper_end s ?g \<and> ?g < upper_end s ?g \<and> word_boundary s (upper_end s ?g))"
        using outer last_token_end [OF gl, of j] by auto
      have n3: "\<not> (i < j \<and> j \<le> length s \<and> token_run py_isspace (slice s i j))"
      proof
        assume a: "i < j \<and> j \<le> length s \<and> token_run py_isspace (slice s i j)"
        then have ij: "i < j" "j \<le> length s" by simp_all
        from a have ts: "?e < j" "token_seq py_isspace (slice s ?g j)"
          by (simp_all add: token_run_slice [OF ij])
        with outer ij have "j \<le> ?g" by simp
        then have "\<not> token_seq py_isspace (slice s ?g j)" by (rule token_seq_empty_slice)
        with ts show False by simp
      qed
      from n1 n2 n3 show ?thesis unfolding l by auto
    qed
  next
    case False
    then have e: "run_ends s i = []"
      by (rule run_ends_none)
    have "\<not> (i < j \<and> j \<le> length s \<and> token_run py_isspace (slice s i j))"
    proof
      assume a: "i < j \<and> j \<le> length s \<and> token_run py_isspace (slice s i j)"
      then have ij: "i < j" "j \<le> length s" by simp_all
      from a have "i < ?e \<and> ?e < j \<and> py_isspace (s ! ?e)"
        by (simp add: token_run_slice [OF ij])
      with ij False show False by simp
    qed
    with e show ?thesis by auto
  qed
qed

lemma run_ends_beyond:
  assumes "x \<in> set (run_ends s g)"
  shows "upper_end s g < x"
proof -
  from assms have a: "g < x" "x \<le> length s" "token_run py_isspace (slice s g x)"
    by (simp_all add: mem_run_ends)
  then show ?thesis by (simp add: token_run_slice [OF a(1,2)])
qed

lemma sorted_run_ends: "sorted_wrt (>) (run_ends s i)"
proof (induction s i rule: group_ends.induct)
  case (1 s i)
  let ?e = "upper_end s i"
  show ?case
  proof (cases "i < ?e \<and> ?e < length s \<and> py_isspace (s ! ?e)")
    case True
    with "1.IH" have "sorted_wrt (>) (run_ends s (Suc ?e))" by simp
    then show ?thesis
      unfolding run_ends_some [OF True]
      by (auto simp: sorted_wrt_append dest: run_ends_beyond)
  next
    case False
    then have "run_ends s i = []" by (rule run_ends_none)
    then show ?thesis by simp
  qed
qed

lemma filter_mem_rev_upt:
  assumes "sorted_wrt (>) xs" and "set xs \<subseteq> {i..<m}"
  shows "filter (\<lambda>j. j \<in> set xs) (rev [i..<m]) = (xs :: nat list)"
proof -
  have s1: "sorted (rev xs)" and d1: "distinct (rev xs)"
    using assms(1) strict_sorted_iff [of "rev xs"]
    by (simp_all add: sorted_wrt_rev)
  have s2: "sorted (filter (\<lambda>j. j \<in> set xs) [i..<m])"
    by (rule sorted_wrt_filter) simp
  have d2: "distinct (filter (\<lambda>j. j \<in> set xs) [i..<m])" by simp
  have "set (filter (\<lambda>j. j \<in> set xs) [i..<m]) = set (rev xs)"
    using assms(2) by auto
  with s2 d2 s1 d1 have "filter (\<lambda>j. j \<in> set xs) [i..<m] = rev xs"
    by (intro sorted_distinct_set_unique)
  then have "rev (filter (\<lambda>j. j \<in> set xs) [i..<m]) = xs" by simp
  then show ?thesis by (simp add: rev_filter)
qed

lemma runs_are_ends:
  "filter (is_name_run py_isspace s i) (rev [i..<Suc (length s)]) = ends name_rx s i"
proof (cases "word_boundary s i")
  case True
  have "is_name_run py_isspace s i = (\<lambda>j. j \<in> set (run_ends s i))"
    using True by (auto simp: fun_eq_iff is_name_run_def mem_run_ends)
  moreover have "filter (\<lambda>j. j \<in> set (run_ends s i)) (rev [i..<Suc (length s)]) = run_ends s i"
    by (rule filter_mem_rev_upt) (auto simp: sorted_run_ends mem_run_ends)
  ultimately show ?thesis using True by (simp add: ends_name_rx)
next
  case False
  then have "is_name_run py_isspace s i = (\<lambda>j. False)"
    by (auto simp: fun_eq_iff is_name_run_def)
  with False show ?thesis by (simp add: ends_name_rx)
qed

lemma head_concat_map_pairs:
  "(case concat (map (\<lambda>i. map (Pair i) (f i)) xs) of [] \<Rightarrow> None | (i, j) # _ \<Rightarrow> Some (h i j)) =
   (case List.find (\<lambda>i. f i \<noteq> []) xs of None \<Rightarrow> None | Some i \<Rightarrow> Some (h i (hd (f i))))"
proof (induction xs)
  case Nil
  then show ?case by simp
next
  case (Cons a xs)
  then show ?case by (cases "f a") simp_all
qed

lemma first_maximal_run_ends:
  "first_maximal_run py_isspace s =
     (case List.find (\<lambda>i. ends name_rx s i \<noteq> []) [0..<Suc (length s)] of
        None \<Rightarrow> None | Some i \<Rightarrow> Some (slice s i (hd (ends name_rx s i))))"
proof -
  have "[(i, j). i \<leftarrow> [0..<Suc (length s)], j \<leftarrow> rev [i..<Suc (length s)], is_name_run py_isspace s i j] =
        concat (map (\<lambda>i. map (Pair i) (ends name_rx s i)) [0..<Suc (length s)])"
    by (simp only: concat_map_if runs_are_ends)
  then show ?thesis
    unfolding first_maximal_run_def by (simp only: head_concat_map_pairs)
qed


text \<open>Neither pattern matches the empty string.\<close>

lemma name_match_nonempty: "j \<in> set (ends name_rx s i) \<Longrightarrow> i < j"
  by (simp add: ends_name_rx mem_run_ends split: if_splits)

lemma method_match_nonempty:
  assumes "j \<in> set (ends method_rx s i)"
  shows "i < j"
proof -
  from assms obtain t where t: "t \<in> set method_tokens" "j = i + length t"
    by (auto simp: ends_method_rx)
  from t(1) have "0 < length t" by (auto simp: method_tokens_def)
  with t(2) show ?thesis by simp
qed

subsection \<open>The first maximal run\<close>

lemma hd_filter_rev_upt:
  assumes "P j" and "a \<le> j" and "j < m" and "\<And>k. P k \<Longrightarrow> k < m \<Longrightarrow> k \<le> j"
  shows "hd (filter P (rev [a..<m])) = (j :: nat)"
proof -
  have "[a..<m] = [a..<j] @ j # [Suc j..<m]"
    using assms(2,3) by (metis upt_add_eq_append upt_conv_Cons le_Suc_ex less_imp_le_nat)
  then have r: "rev [a..<m] = rev [Suc j..<m] @ j # rev [a..<j]" by simp
  have "filter P (rev [Suc j..<m]) = []"
  proof -
    have "\<not> P k" if "Suc j \<le> k" "k < m" for k
      using assms(4) [of k] that by auto
    then show ?thesis by (auto simp: filter_empty_conv)
  qed
  with assms(1) show ?thesis by (simp add: r)
qed

lemma mem_nonempty: "x \<in> set xs \<Longrightarrow> xs \<noteq> []"
  by auto

lemma first_maximal_run_leftmost_longest:
  assumes run: "is_name_run sep s i j"
    and first: "\<And>i' j'. is_name_run sep s i' j' \<Longrightarrow> i \<le> i' \<and> (i' = i \<longrightarrow> j' \<le> j)"
  shows "first_maximal_run sep s = Some (slice s i j)"
proof -
  let ?n = "length s"
  let ?f = "\<lambda>i. filter (is_name_run sep s i) (rev [i..<Suc ?n])"
  from run have ij: "i < j" "j \<le> ?n" by (simp_all add: is_name_run_def)
  have hd: "hd (?f i) = j"
    using run ij first by (intro hd_filter_rev_upt) auto
  have "j \<in> set (?f i)"
    unfolding set_filter set_rev set_upt using run ij by simp
  then have ne: "?f i \<noteq> []" by (rule mem_nonempty)
  have before: "\<And>k. k < i \<Longrightarrow> ?f k = []"
    using first by (fastforce simp: filter_empty_conv simp del: upt_Suc)
  have "List.find (\<lambda>i. ?f i \<noteq> []) [0..<Suc ?n] = Some i"
  proof -
    have "[0..<Suc ?n] ! i = i" and "i < length [0..<Suc ?n]"
      using ij by (simp_all del: upt_Suc)
    moreover have "\<forall>k<i. \<not> ?f ([0..<Suc ?n] ! k) \<noteq> []"
      using before ij by (simp del: upt_Suc)
    ultimately show ?thesis
      using ne unfolding find_Some_iff by (intro exI [of _ i]) (simp del: upt_Suc)
  qed
  moreover have "[(i, j). i \<leftarrow> [0..<Suc ?n], j \<leftarrow> rev [i..<Suc ?n], is_name_run sep s i j] =
        concat (map (\<lambda>i. map (Pair i) (?f i)) [0..<Suc ?n])"
    by (simp only: concat_map_if)
  ultimately show ?thesis
    unfolding first_maximal_run_def by (simp only: head_concat_map_pairs hd option.case)
qed

lemma name_refines:
  "extract_sender_receiver_name v = Inr (first_maximal_run py_isspace (handle_nan v))"
  by (simp only: name_result findall_head first_maximal_run_ends)

lemma first_maximal_run_none:
  assumes "\<And>i j. \<not> is_name_run sep s i j"
  shows "first_maximal_run sep s = None"
proof -
  have "[(i, j). i \<leftarrow> [0..<Suc (length s)], j \<leftarrow> rev [i..<Suc (length s)], is_name_run sep s i j] = []"
    using assms by (simp del: upt_Suc)
  then show ?thesis by (simp only: first_maximal_run_def list.case)
qed

subsection \<open>Tabs and newlines; a narration that is one run\<close>














section \<open>The name\<close>

text \<open>
  C6, as the code has it. The name extractor returns the first maximal run of two or
  more all-upper-case tokens in which consecutive tokens are separated by exactly one
  whitespace character (the class \<open>\s\<close>: space, tab, newline and the other
  whitespace), the run standing between word boundaries: the run with the leftmost
  start and, from that start, the farthest end. It returns \<open>None\<close> when the
  narration has no such run.
\<close>

theorem name_is_first_maximal_run:
  "extract_sender_receiver_name v = Inr (first_maximal_run py_isspace (handle_nan v)) \<and>
   (is_name_run py_isspace s i j \<and>
    (\<forall>i' j'. is_name_run py_isspace s i' j' \<longrightarrow> i \<le> i' \<and> (i' = i \<longrightarrow> j' \<le> j)) \<longrightarrow>
      extract_sender_receiver_name (CStr s) = Inr (Some (slice s i j))) \<and>
   ((\<forall>i j. \<not> is_name_run py_isspace t i j) \<longrightarrow> extract_sender_receiver_name (CStr t) = Inr None)"
proof (intro conjI impI)
  show "extract_sender_receiver_name v = Inr (first_maximal_run py_isspace (handle_nan v))"
    by (rule name_refines)
  show "extract_sender_receiver_name (CStr s) = Inr (Some (slice s i j))"
    if "is_name_run py_isspace s i j \<and>
        (\<forall>i' j'. is_name_run py_isspace s i' j' \<longrightarrow> i \<le> i' \<and> (i' = i \<longrightarrow> j' \<le> j))"
  proof -
    from that have "first_maximal_run py_isspace s = Some (slice s i j)"
      by (intro first_maximal_run_leftmost_longest) blast+
    then show ?thesis by (simp add: name_refines)
  qed
  show "extract_sender_receiver_name (CStr t) = Inr None"
    if "\<forall>i j. \<not> is_name_run py_isspace t i j"
  proof -
    from that have "first_maximal_run py_isspace t = None"
      by (intro first_maximal_run_none) blast
    then show ?thesis by (simp add: name_refines)
  qed
qed

theorem name_is_first_maximal_run_witness:
  "extract_sender_receiver_name (CStr ''UPI to JOHN SMITH'') = Inr (Some ''JOHN SMITH'') \<and>
   first_maximal_run py_isspace ''UPI to JOHN SMITH'' = Some ''JOHN SMITH'' \<and>
   is_name_run py_isspace ''JOHN SMITH'' 0 10 \<and>
   extract_sender_receiver_name (CStr ''JOHN SMITH'') = Inr (Some ''JOHN SMITH'') \<and>
   extract_sender_receiver_name (CStr []) = Inr None"
proof -
  note t = name_is_first_maximal_run [of "CStr ''UPI to JOHN SMITH''" "''JOHN SMITH''" 0 10 "[]"]
  have f: "first_maximal_run py_isspace ''UPI to JOHN SMITH'' = Some ''JOHN SMITH''"
    by code_simp
  have r: "is_name_run py_isspace ''JOHN SMITH'' 0 10"
    by code_simp
  have m: "\<forall>i' j'. is_name_run py_isspace ''JOHN SMITH'' i' j' \<longrightarrow>
      (0::nat) \<le> i' \<and> (i' = 0 \<longrightarrow> j' \<le> 10)"
    by (simp add: is_name_run_def)
  have n: "\<forall>i j. \<not> is_name_run py_isspace [] i j"
    by (simp add: is_name_run_def)
  have s: "slice ''JOHN SMITH'' 0 10 = ''JOHN SMITH''"
    by (simp add: slice_def)
  from t f have a: "extract_sender_receiver_name (CStr ''UPI to JOHN SMITH'') = Inr (Some ''JOHN SMITH'')"
    by simp
  from t r m s have b: "extract_sender_receiver_name (CStr ''JOHN SMITH'') = Inr (Some ''JOHN SMITH'')"
    by simp
  from t n have c: "extract_sender_receiver_name (CStr []) = Inr None"
    by blast
  show ?thesis by (intro conjI a f r b c)
qed

text \<open>
  C6 as the specification words it, with tokens separated by spaces, fails: the
  narration \<open>JOHN\<close>, newline, \<open>SMITH\<close> has no run of space-separated tokens, and
  the extractor returns all of it.
\<close>

theorem name_space_separated_counterexample:
  "extract_sender_receiver_name
     (CStr [CHR ''J'', CHR ''O'', CHR ''H'', CHR ''N'', CHR 0x0A,
            CHR ''S'', CHR ''M'', CHR ''I'', CHR ''T'', CHR ''H'']) =
     Inr (Some [CHR ''J'', CHR ''O'', CHR ''H'', CHR ''N'', CHR 0x0A,
                CHR ''S'', CHR ''M'', CHR ''I'', CHR ''T'', CHR ''H'']) \<and>
   first_maximal_run literal_space
     [CHR ''J'', CHR ''O'', CHR ''H'', CHR ''N'', CHR 0x0A,
      CHR ''S'', CHR ''M'', CHR ''I'', CHR ''T'', CHR ''H''] = None"
  by code_simp



section \<open>The heuristics return a value on every cell\<close>





end
